theory Spec2Isabelle
  imports Main "HOL-Library.Sublist" "HOL-Library.Multiset" "HOL-Library.Char_ord"
    "HOL-Library.List_Lexorder"
begin

section \<open>Python strings\<close>

text \<open>
  \<^verbatim>\<open>sub in s\<close>: the substring test of Python. The empty string is contained in every
  string.
\<close>

fun contains :: "string \<Rightarrow> string \<Rightarrow> bool" where
  "contains sub [] = (sub = [])"
| "contains sub (c # cs) = (prefix sub (c # cs) \<or> contains sub cs)"

text \<open>
  \<^verbatim>\<open>s.replace(old, new)\<close>: the occurrences of \<open>old\<close> are found from left to right and
  do not overlap; an empty \<open>old\<close> matches before every character and at the end.
\<close>

fun str_replace :: "string \<Rightarrow> string \<Rightarrow> string \<Rightarrow> string" where
  "str_replace old new [] = (if old = [] then new else [])"
| "str_replace old new (c # cs) =
     (if old = [] then new @ c # str_replace old new cs
      else if prefix old (c # cs) then new @ str_replace old new (drop (length old) (c # cs))
      else c # str_replace old new cs)"

text \<open>\<^verbatim>\<open>s.count(sub)\<close>: the number of occurrences that \<^verbatim>\<open>replace\<close> replaces.\<close>

fun str_count :: "string \<Rightarrow> string \<Rightarrow> nat" where
  "str_count sub [] = (if sub = [] then 1 else 0)"
| "str_count sub (c # cs) =
     (if sub = [] then Suc (str_count sub cs)
      else if prefix sub (c # cs) then Suc (str_count sub (drop (length sub) (c # cs)))
      else str_count sub cs)"

text \<open>
  \<^verbatim>\<open>s.split(sep)\<close> for a separator that is not empty (the source only splits at the
  literals \<^verbatim>\<open>"."\<close> and \<^verbatim>\<open>"\n"\<close>). \<open>cur\<close> is the piece being read, reversed.
\<close>

fun split_acc :: "string \<Rightarrow> string \<Rightarrow> string \<Rightarrow> string list" where
  "split_acc sep cur [] = [rev cur]"
| "split_acc sep cur (c # cs) =
     (if sep \<noteq> [] \<and> prefix sep (c # cs)
      then rev cur # split_acc sep [] (drop (length sep) (c # cs))
      else split_acc sep (c # cur) cs)"

definition str_split :: "string \<Rightarrow> string \<Rightarrow> string list" where
  "str_split sep s = split_acc sep [] s"

text \<open>\<^verbatim>\<open>sep.join(pieces)\<close>.\<close>

fun str_join :: "string \<Rightarrow> string list \<Rightarrow> string" where
  "str_join sep [] = []"
| "str_join sep [p] = p"
| "str_join sep (p # q # ps) = p @ sep @ str_join sep (q # ps)"

definition newline :: string where
  "newline = [CHR 0x0A]"

section \<open>Exceptions\<close>

text \<open>
  A raised exception is a value. \<open>Exception m\<close> is an instance of Python's
  \<^verbatim>\<open>Exception\<close> whose \<^verbatim>\<open>str\<close> is \<open>m\<close> (\<^verbatim>\<open>SyntaxError\<close>, \<^verbatim>\<open>OSError\<close>,
  \<^verbatim>\<open>subprocess.TimeoutExpired\<close>, ...); \<open>BaseException m\<close> is any other exception
  (\<^verbatim>\<open>KeyboardInterrupt\<close>, \<^verbatim>\<open>SystemExit\<close>). \<^verbatim>\<open>except Exception\<close> catches the first
  kind only, a bare \<^verbatim>\<open>except:\<close> catches both.
\<close>

datatype exn = Exception string | BaseException string

section \<open>Syntax trees\<close>

text \<open>
  The nodes of \<^verbatim>\<open>ast\<close> that the agents tell apart: \<^verbatim>\<open>Import\<close> with the names of its
  aliases, \<^verbatim>\<open>ImportFrom\<close> with its \<^verbatim>\<open>module\<close> (absent for \<^verbatim>\<open>from . import x\<close>),
  \<^verbatim>\<open>FunctionDef\<close> with its name, \<^verbatim>\<open>AsyncFunctionDef\<close> (an \<^verbatim>\<open>async def\<close>, a class of its own
  and not a subclass of \<^verbatim>\<open>FunctionDef\<close>) with its name, \<^verbatim>\<open>Stmt\<close> for a statement of any
  other class, and \<^verbatim>\<open>Other\<close> for every node that is not a statement (the module, an
  expression, the arguments of a function). A node has the line and the column where it
  starts and its child nodes in the order of \<^verbatim>\<open>ast.iter_child_nodes\<close>.
\<close>

datatype kind =
  Import "string list" | ImportFrom "string option" | FunctionDef string
  | AsyncFunctionDef string | Stmt | Other

datatype ast = Node (kind: kind) (lineno: nat) (col_offset: nat) (children: "ast list")

fun nodes :: "ast \<Rightarrow> nat" where
  "nodes (Node k l c ns) = Suc (sum_list (map nodes ns))"

text \<open>
  \<^verbatim>\<open>ast.walk\<close> keeps a queue of nodes: it takes the first node of the queue, puts the
  children of that node at the end of the queue and yields the node, until the queue is
  empty.
\<close>

function walk_queue :: "ast list \<Rightarrow> ast list" where
  "walk_queue [] = []"
| "walk_queue (n # todo) = n # walk_queue (todo @ children n)"
  by pat_completeness auto
termination
proof (relation "measure (\<lambda>q. sum_list (map nodes q))")
  show "wf (measure (\<lambda>q. sum_list (map nodes q)))" by simp
next
  fix n :: ast and todo :: "ast list"
  show "(todo @ children n, n # todo) \<in> measure (\<lambda>q. sum_list (map nodes q))"
    by (cases n) simp
qed

definition walk :: "ast \<Rightarrow> ast list" where
  "walk tree = walk_queue [tree]"

text \<open>The nodes of a tree in pre-order (a node, then its subtrees from left to right).\<close>

fun preorder :: "ast \<Rightarrow> ast list" where
  "preorder (Node k l c ns) = Node k l c ns # concat (map preorder ns)"

section \<open>Files\<close>

text \<open>
  The file system maps a path to the text of the file, and to \<open>None\<close> when there is
  no file that can be read and decoded there. \<^verbatim>\<open>read_file\<close> raises on such a path;
  \<^verbatim>\<open>write_file\<close> creates or overwrites the file.
\<close>

type_synonym files = "string \<Rightarrow> string option"

definition read_file :: "files \<Rightarrow> string \<Rightarrow> exn + string" where
  "read_file fs path =
     (case fs path of None \<Rightarrow> Inl (Exception ''FileNotFoundError'') | Some txt \<Rightarrow> Inr txt)"

definition write_file :: "files \<Rightarrow> string \<Rightarrow> string \<Rightarrow> files" where
  "write_file fs path content = fs(path \<mapsto> content)"

section \<open>Dictionaries\<close>

text \<open>
  A Python \<^verbatim>\<open>dict\<close> keeps its keys in insertion order; \<^verbatim>\<open>d[k] = v\<close> on a key that
  is present changes the value and leaves the key where it is.
\<close>

fun dict_set :: "'k \<Rightarrow> 'v \<Rightarrow> ('k \<times> 'v) list \<Rightarrow> ('k \<times> 'v) list" where
  "dict_set k v [] = [(k, v)]"
| "dict_set k v ((k', v') # d) =
     (if k' = k then (k', v) # d else (k', v') # dict_set k v d)"

definition keys :: "('k \<times> 'v) list \<Rightarrow> 'k list" where
  "keys d = map fst d"

section \<open>DependencyMapperAgent\<close>

text \<open>\<^verbatim>\<open>name.split(".")[0]\<close>\<close>

definition top_level :: "string \<Rightarrow> string" where
  "top_level name = hd (str_split ''.'' name)"

text \<open>The loop over \<^verbatim>\<open>ast.walk(tree)\<close> that fills \<^verbatim>\<open>imports\<close>.\<close>

fun collect_imports :: "ast list \<Rightarrow> string list \<Rightarrow> string list" where
  "collect_imports [] imports = imports"
| "collect_imports (node # rest) imports =
     (case kind node of
        Import names \<Rightarrow> collect_imports rest (imports @ map top_level names)
      | ImportFrom module \<Rightarrow>
          (if module \<noteq> None \<and> module \<noteq> Some []
           then collect_imports rest (imports @ [top_level (the module)])
           else collect_imports rest imports)
      | _ \<Rightarrow> collect_imports rest imports)"

text \<open>
  The body of the \<^verbatim>\<open>try\<close>; \<open>parse\<close> is the result of \<^verbatim>\<open>ast.parse\<close>, which
  raises on a text that is not a Python module.
\<close>

definition file_imports ::
  "files \<Rightarrow> (string \<Rightarrow> exn + ast) \<Rightarrow> string \<Rightarrow> exn + string list" where
  "file_imports fs parse f =
     (case read_file fs f of
        Inl e \<Rightarrow> Inl e
      | Inr text \<Rightarrow>
          (case parse text of
             Inl e \<Rightarrow> Inl e
           | Inr tree \<Rightarrow> Inr (sort (remdups (collect_imports (walk tree) [])))))"

fun deps_loop ::
  "files \<Rightarrow> (string \<Rightarrow> exn + ast) \<Rightarrow> string list \<Rightarrow>
   (string \<times> string list) list \<Rightarrow> exn + (string \<times> string list) list" where
  "deps_loop fs parse [] deps = Inr deps"
| "deps_loop fs parse (f # files) deps =
     (case file_imports fs parse f of
        Inr imports \<Rightarrow> deps_loop fs parse files (dict_set f imports deps)
      | Inl e \<Rightarrow> deps_loop fs parse files (dict_set f [] deps))"

definition dependency_mapper_run ::
  "files \<Rightarrow> (string \<Rightarrow> exn + ast) \<Rightarrow> string list \<Rightarrow>
   exn + (string \<times> string list) list" where
  "dependency_mapper_run fs parse files = deps_loop fs parse files []"

section \<open>StaticAnalyzerAgent\<close>

record issue =
  itype :: string
  msg :: string

definition security_issue :: issue where
  "security_issue = \<lparr>itype = ''security'', msg = ''Unsafe eval() found''\<rparr>"

definition complexity_issue :: "string \<Rightarrow> issue" where
  "complexity_issue name =
     \<lparr>itype = ''complexity'',
      msg = ''Function '' @ [CHR 0x27] @ name @ [CHR 0x27] @ '' is too long''\<rparr>"

fun is_FunctionDef :: "ast \<Rightarrow> bool" where
  "is_FunctionDef (Node (FunctionDef name) l c ns) = True"
| "is_FunctionDef n = False"

fun name_of :: "ast \<Rightarrow> string" where
  "name_of (Node (FunctionDef name) l c ns) = name"
| "name_of n = []"

text \<open>
  \<^verbatim>\<open>len(src.split("\n"))\<close> for \<^verbatim>\<open>src = ast.get_source_segment(text, node) or ""\<close>;
  \<open>seg\<close> is the result of \<^verbatim>\<open>ast.get_source_segment\<close>.
\<close>

definition segment_lines :: "(string \<Rightarrow> ast \<Rightarrow> string option) \<Rightarrow> string \<Rightarrow> ast \<Rightarrow> nat" where
  "segment_lines seg text node =
     length (str_split newline (case seg text node of None \<Rightarrow> [] | Some src \<Rightarrow> src))"

text \<open>The loop over \<^verbatim>\<open>ast.walk(tree)\<close> that appends to \<^verbatim>\<open>file_issues\<close>.\<close>

fun scan_nodes ::
  "(string \<Rightarrow> ast \<Rightarrow> string option) \<Rightarrow> string \<Rightarrow> ast list \<Rightarrow> issue list \<Rightarrow> issue list" where
  "scan_nodes seg text [] file_issues = file_issues"
| "scan_nodes seg text (node # rest) file_issues =
     (if is_FunctionDef node
      then (if 120 < segment_lines seg text node
            then scan_nodes seg text rest (file_issues @ [complexity_issue (name_of node)])
            else scan_nodes seg text rest file_issues)
      else scan_nodes seg text rest file_issues)"

text \<open>The body of the loop over the files, after \<^verbatim>\<open>read_file\<close>.\<close>

definition analyze_text ::
  "(string \<Rightarrow> ast \<Rightarrow> string option) \<Rightarrow> (string \<Rightarrow> exn + ast) \<Rightarrow> string \<Rightarrow> issue list" where
  "analyze_text seg parse text =
     (let file_issues = (if contains ''eval('' text then [security_issue] else [])
      in case parse text of
           Inr tree \<Rightarrow> scan_nodes seg text (walk tree) file_issues
         | Inl e \<Rightarrow> file_issues)"

fun issues_loop ::
  "files \<Rightarrow> (string \<Rightarrow> ast \<Rightarrow> string option) \<Rightarrow> (string \<Rightarrow> exn + ast) \<Rightarrow>
   string list \<Rightarrow> (string \<times> issue list) list \<Rightarrow> exn + (string \<times> issue list) list" where
  "issues_loop fs seg parse [] issues = Inr issues"
| "issues_loop fs seg parse (f # files) issues =
     (case read_file fs f of
        Inl e \<Rightarrow> Inl e
      | Inr text \<Rightarrow>
          issues_loop fs seg parse files (dict_set f (analyze_text seg parse text) issues))"

definition static_analyzer_run ::
  "files \<Rightarrow> (string \<Rightarrow> ast \<Rightarrow> string option) \<Rightarrow> (string \<Rightarrow> exn + ast) \<Rightarrow>
   string list \<Rightarrow> exn + (string \<times> issue list) list" where
  "static_analyzer_run fs seg parse files = issues_loop fs seg parse files []"

section \<open>TestRunnerAgent\<close>

text \<open>
  \<open>proc\<close> is the outcome of \<^verbatim>\<open>subprocess.run\<close>: the return code with the captured
  output, or the exception it raises (\<^verbatim>\<open>TimeoutExpired\<close> after the timeout,
  \<^verbatim>\<open>OSError\<close> when the process cannot be started).
\<close>

definition run_cmd :: "exn + (int \<times> string \<times> string) \<Rightarrow> exn + (int \<times> string \<times> string)" where
  "run_cmd proc =
     (case proc of
        Inr (returncode, out, err) \<Rightarrow> Inr (returncode, out, err)
      | Inl (Exception e) \<Rightarrow> Inr (1, [], e)
      | Inl (BaseException e) \<Rightarrow> Inl (BaseException e))"

text \<open>The two shapes of the dictionary that \<^verbatim>\<open>TestRunnerAgent.run\<close> returns.\<close>

datatype test_result =
    RunnerResult (success: bool) string string
  | CompileResult (success: bool) "(string \<times> string) list"

text \<open>
  The loop of the fallback; \<open>compile_file f\<close> is the outcome of
  \<^verbatim>\<open>compile(read_file(f), f, "exec")\<close>.
\<close>

fun compile_loop ::
  "(string \<Rightarrow> exn + unit) \<Rightarrow> string list \<Rightarrow> (string \<times> string) list \<Rightarrow>
   exn + (string \<times> string) list" where
  "compile_loop compile_file [] errors = Inr errors"
| "compile_loop compile_file (f # files) errors =
     (case compile_file f of
        Inr u \<Rightarrow> compile_loop compile_file files errors
      | Inl (Exception e) \<Rightarrow> compile_loop compile_file files (errors @ [(f, e)])
      | Inl (BaseException e) \<Rightarrow> Inl (BaseException e))"

text \<open>
  \<open>tests_exists\<close> is \<^verbatim>\<open>Path(repo_path, "tests").exists()\<close> and \<open>source_files\<close> is
  \<^verbatim>\<open>list_source_files(repo_path)\<close>.
\<close>

definition test_runner_run ::
  "bool \<Rightarrow> exn + (int \<times> string \<times> string) \<Rightarrow> string list \<Rightarrow> (string \<Rightarrow> exn + unit) \<Rightarrow>
   exn + test_result" where
  "test_runner_run tests_exists proc source_files compile_file =
     (if tests_exists
      then (case run_cmd proc of
              Inl e \<Rightarrow> Inl e
            | Inr (code, out, err) \<Rightarrow> Inr (RunnerResult (code = 0) out err))
      else (case compile_loop compile_file source_files [] of
              Inl e \<Rightarrow> Inl e
            | Inr errors \<Rightarrow> Inr (CompileResult (length errors = 0) errors)))"

section \<open>FixPlannerAgent\<close>

record plan_item =
  pfile :: "string option"
  action :: string

text \<open>The inner loop, over the issues of one file.\<close>

fun plan_issues :: "string \<Rightarrow> issue list \<Rightarrow> plan_item list \<Rightarrow> plan_item list" where
  "plan_issues f [] plan = plan"
| "plan_issues f (i # iss) plan =
     (if itype i = ''security''
      then plan_issues f iss (plan @ [\<lparr>pfile = Some f, action = ''fix_eval''\<rparr>])
      else if itype i = ''complexity''
      then plan_issues f iss (plan @ [\<lparr>pfile = Some f, action = ''refactor_note''\<rparr>])
      else plan_issues f iss plan)"

text \<open>The outer loop, over \<^verbatim>\<open>issues.items()\<close>.\<close>

fun plan_files :: "(string \<times> issue list) list \<Rightarrow> plan_item list \<Rightarrow> plan_item list" where
  "plan_files [] plan = plan"
| "plan_files ((f, iss) # issues) plan = plan_files issues (plan_issues f iss plan)"

definition fix_planner_run :: "(string \<times> issue list) list \<Rightarrow> test_result \<Rightarrow> plan_item list" where
  "fix_planner_run issues tests =
     (let plan = plan_files issues []
      in if \<not> success tests
         then plan @ [\<lparr>pfile = None, action = ''investigate_test_failure''\<rparr>]
         else plan)"

section \<open>BugFixerAgent\<close>

definition fix_eval :: "string \<Rightarrow> string" where
  "fix_eval txt = str_replace ''eval('' ''ast.literal_eval('' txt"

definition refactor_note :: "string \<Rightarrow> string" where
  "refactor_note txt = txt @ newline @ ''# TODO: Refactor long function.'' @ newline"

record change =
  cfile :: string
  update :: string

text \<open>\<^verbatim>\<open>if f\<close>: a path is true when it is neither \<^verbatim>\<open>None\<close> nor the empty string.\<close>

definition truthy :: "string option \<Rightarrow> bool" where
  "truthy f = (f \<noteq> None \<and> f \<noteq> Some [])"

fun bug_fixer_loop :: "files \<Rightarrow> plan_item list \<Rightarrow> change list \<Rightarrow> exn + (files \<times> change list)" where
  "bug_fixer_loop fs [] changes = Inr (fs, changes)"
| "bug_fixer_loop fs (item # plan) changes =
     (if truthy (pfile item) \<and> action item = ''fix_eval''
      then (case read_file fs (the (pfile item)) of
              Inl e \<Rightarrow> Inl e
            | Inr txt \<Rightarrow>
                bug_fixer_loop (write_file fs (the (pfile item)) (fix_eval txt)) plan
                  (changes @ [\<lparr>cfile = the (pfile item), update = ''eval() replaced''\<rparr>]))
      else if truthy (pfile item) \<and> action item = ''refactor_note''
      then (case read_file fs (the (pfile item)) of
              Inl e \<Rightarrow> Inl e
            | Inr txt \<Rightarrow>
                bug_fixer_loop (write_file fs (the (pfile item)) (refactor_note txt)) plan
                  (changes @ [\<lparr>cfile = the (pfile item), update = ''refactor note added''\<rparr>]))
      else bug_fixer_loop fs plan changes)"

definition bug_fixer_run :: "files \<Rightarrow> plan_item list \<Rightarrow> exn + (files \<times> change list)" where
  "bug_fixer_run fs plan = bug_fixer_loop fs plan []"

section \<open>Notions used in the statements\<close>

text \<open>
  A function definition is too long when the source segment of the \<^verbatim>\<open>def\<close> statement
  has more than 120 lines.
\<close>

definition oversized :: "(string \<Rightarrow> ast \<Rightarrow> string option) \<Rightarrow> string \<Rightarrow> ast \<Rightarrow> bool" where
  "oversized seg text node = (is_FunctionDef node \<and> 120 < segment_lines seg text node)"

text \<open>
  A function definition in the words of the specification: a \<^verbatim>\<open>def\<close> or an
  \<^verbatim>\<open>async def\<close>.
\<close>

fun function_definition :: "ast \<Rightarrow> bool" where
  "function_definition (Node (FunctionDef name) l c ns) = True"
| "function_definition (Node (AsyncFunctionDef name) l c ns) = True"
| "function_definition n = False"

text \<open>
  The body of a function definition (\<^verbatim>\<open>node.body\<close>): its child nodes that are
  statements; the other children (arguments, decorators, annotation) are not.
\<close>

fun is_stmt :: "ast \<Rightarrow> bool" where
  "is_stmt (Node Other l c ns) = False"
| "is_stmt n = True"

definition function_body :: "ast \<Rightarrow> ast list" where
  "function_body node = filter is_stmt (children node)"

text \<open>
  The lines that the body spans: from the line where its first statement starts to the
  line where its last statement ends, which is the line where that statement starts plus
  the lines of its segment minus one.
\<close>

definition body_span :: "(string \<Rightarrow> ast \<Rightarrow> string option) \<Rightarrow> string \<Rightarrow> ast \<Rightarrow> nat" where
  "body_span seg text node =
     (case function_body node of
        [] \<Rightarrow> 0
      | s # ss \<Rightarrow> lineno (last (s # ss)) + segment_lines seg text (last (s # ss)) - lineno s)"

text \<open>The issue of a node that is too long.\<close>

definition issue_of :: "ast \<Rightarrow> issue" where
  "issue_of node = complexity_issue (name_of node)"

text \<open>The table of the planner: the action for an issue of a file.\<close>

definition remedy :: "string \<Rightarrow> issue \<Rightarrow> plan_item" where
  "remedy f i =
     \<lparr>pfile = Some f,
      action = (if itype i = ''security'' then ''fix_eval'' else ''refactor_note'')\<rparr>"

text \<open>An issue has one of the two kinds that the analyzer emits.\<close>

definition known_kind :: "issue \<Rightarrow> bool" where
  "known_kind i = (itype i = ''security'' \<or> itype i = ''complexity'')"

text \<open>The entry of the fallback check for one file.\<close>

definition compile_error :: "(string \<Rightarrow> exn + unit) \<Rightarrow> string \<Rightarrow> (string \<times> string) list" where
  "compile_error compile_file f =
     (case compile_file f of Inl (Exception e) \<Rightarrow> [(f, e)] | _ \<Rightarrow> [])"

text \<open>The entry of the dependency map for one file.\<close>

definition deps_entry :: "files \<Rightarrow> (string \<Rightarrow> exn + ast) \<Rightarrow> string \<Rightarrow> string list" where
  "deps_entry fs parse f =
     (case file_imports fs parse f of Inr imports \<Rightarrow> imports | Inl e \<Rightarrow> [])"

section \<open>Example inputs\<close>

text \<open>
  The tree of a module with a function \<^verbatim>\<open>outer\<close> that contains a function
  \<^verbatim>\<open>inner\<close>, followed by a function \<^verbatim>\<open>last\<close>.
\<close>

definition nested_tree :: ast where
  "nested_tree =
     Node Other 0 0
       [Node (FunctionDef ''outer'') 1 0 [Node (FunctionDef ''inner'') 2 4 []],
        Node (FunctionDef ''last'') 130 0 []]"

text \<open>The tree of a module with the two functions \<^verbatim>\<open>big\<close> and \<^verbatim>\<open>small\<close>.\<close>

definition mixed_tree :: ast where
  "mixed_tree =
     Node Other 0 0
       [Node (FunctionDef ''big'') 1 0 [], Node (FunctionDef ''small'') 130 0 []]"

text \<open>A segment of 121 lines and a segment of 120 lines.\<close>

definition long_segment :: string where
  "long_segment = replicate 120 (CHR 0x0A)"

definition limit_segment :: string where
  "limit_segment = replicate 119 (CHR 0x0A)"

definition all_long :: "string \<Rightarrow> ast \<Rightarrow> string option" where
  "all_long text node = Some long_segment"

definition big_is_long :: "string \<Rightarrow> ast \<Rightarrow> string option" where
  "big_is_long text node =
     (if name_of node = ''big'' then Some long_segment else Some limit_segment)"

definition parse_nested :: "string \<Rightarrow> exn + ast" where
  "parse_nested text = Inr nested_tree"

definition parse_mixed :: "string \<Rightarrow> exn + ast" where
  "parse_mixed text = Inr mixed_tree"

text \<open>
  The tree of a module with the function \<^verbatim>\<open>f\<close>: the \<^verbatim>\<open>def\<close> on line 1, a statement on
  line 2 and a statement from line 3 to line 121. The body spans 120 lines and the
  \<^verbatim>\<open>def\<close> statement 121.
\<close>

definition short_body_tree :: ast where
  "short_body_tree =
     Node Other 0 0 [Node (FunctionDef ''f'') 1 0 [Node Stmt 2 4 [], Node Stmt 3 4 []]]"

definition short_body_segments :: "string \<Rightarrow> ast \<Rightarrow> string option" where
  "short_body_segments text node =
     (if function_definition node then Some (replicate 120 (CHR 0x0A))
      else if lineno node = 3 then Some (replicate 118 (CHR 0x0A)) else Some [])"

definition parse_short_body :: "string \<Rightarrow> exn + ast" where
  "parse_short_body text = Inr short_body_tree"

text \<open>The files with the one file \<^verbatim>\<open>a.py\<close>.\<close>

definition one_file :: files where
  "one_file = [''a.py'' \<mapsto> ''src'']"

text \<open>
  The tree of a module with the function \<^verbatim>\<open>g\<close>: the \<^verbatim>\<open>async def\<close> on line 1, a statement
  on line 2 and a statement from line 3 to line 131. The body spans 130 lines and the
  \<^verbatim>\<open>async def\<close> statement 131.
\<close>

definition async_tree :: ast where
  "async_tree =
     Node Other 0 0 [Node (AsyncFunctionDef ''g'') 1 0 [Node Stmt 2 4 [], Node Stmt 3 4 []]]"

definition async_segments :: "string \<Rightarrow> ast \<Rightarrow> string option" where
  "async_segments text node =
     (if function_definition node then Some (replicate 130 (CHR 0x0A))
      else if lineno node = 3 then Some (replicate 128 (CHR 0x0A)) else Some [])"

definition parse_async :: "string \<Rightarrow> exn + ast" where
  "parse_async text = Inr async_tree"

text \<open>
  Outcomes of \<^verbatim>\<open>compile\<close>: every file compiles, or every file but \<^verbatim>\<open>b.py\<close> does.
\<close>

definition compiles_all :: "string \<Rightarrow> exn + unit" where
  "compiles_all f = Inr ()"

definition b_fails :: "string \<Rightarrow> exn + unit" where
  "b_fails f = (if f = ''b.py'' then Inl (Exception ''invalid syntax'') else Inr ())"

text \<open>
  The tree of a module with \<^verbatim>\<open>import os.path, json\<close>, \<^verbatim>\<open>from os.path import join\<close> and
  \<^verbatim>\<open>from . import x\<close>, and a parser that accepts only the text \<^verbatim>\<open>imports\<close>.
\<close>

definition import_tree :: ast where
  "import_tree =
     Node Other 0 0
       [Node (Import [''os.path'', ''json'']) 1 0 [],
        Node (ImportFrom (Some ''os.path'')) 2 0 [],
        Node (ImportFrom None) 3 0 []]"

definition parse_imports :: "string \<Rightarrow> exn + ast" where
  "parse_imports text =
     (if text = ''imports'' then Inr import_tree else Inl (Exception ''invalid syntax''))"

definition two_files :: files where
  "two_files = [''bad.py'' \<mapsto> ''def ('', ''good.py'' \<mapsto> ''imports'']"

section \<open>Properties of the string operations\<close>

lemma contains_iff: "contains sub s \<longleftrightarrow> (\<exists>xs ys. s = xs @ sub @ ys)"
proof (induction s)
  case Nil
  then show ?case by auto
next
  case (Cons c cs)
  show ?case
  proof
    assume "contains sub (c # cs)"
    then consider "prefix sub (c # cs)" | "contains sub cs" by auto
    then show "\<exists>xs ys. c # cs = xs @ sub @ ys"
    proof cases
      case 1
      then obtain ys where "c # cs = sub @ ys" by (auto simp: prefix_def)
      then have "c # cs = [] @ sub @ ys" by simp
      then show ?thesis by blast
    next
      case 2
      with Cons.IH obtain xs ys where "cs = xs @ sub @ ys" by blast
      then have "c # cs = (c # xs) @ sub @ ys" by simp
      then show ?thesis by blast
    qed
  next
    assume "\<exists>xs ys. c # cs = xs @ sub @ ys"
    then obtain xs ys where e: "c # cs = xs @ sub @ ys" by blast
    show "contains sub (c # cs)"
    proof (cases xs)
      case Nil
      with e have "prefix sub (c # cs)" by (simp add: prefix_def)
      then show ?thesis by simp
    next
      case (Cons x xs')
      with e have "cs = xs' @ sub @ ys" by simp
      with Cons.IH have "contains sub cs" by blast
      then show ?thesis by simp
    qed
  qed
qed

lemma contains_trans: "contains a b \<Longrightarrow> contains b c \<Longrightarrow> contains a c"
proof -
  assume "contains a b" "contains b c"
  then obtain xs ys us vs where "b = xs @ a @ ys" "c = us @ b @ vs"
    unfolding contains_iff by blast
  then have "c = (us @ xs) @ a @ (ys @ vs)" by simp
  then show ?thesis unfolding contains_iff by blast
qed

lemma replace_skip:
  "old \<noteq> [] \<Longrightarrow> \<not> prefix old (c # cs) \<Longrightarrow>
   str_replace old new (c # cs) = c # str_replace old new cs"
  by simp

lemma replace_hit:
  "old \<noteq> [] \<Longrightarrow> str_replace old new (old @ r) = new @ str_replace old new r"
  by (cases old) auto

lemma count_skip:
  "sub \<noteq> [] \<Longrightarrow> \<not> prefix sub (c # cs) \<Longrightarrow> str_count sub (c # cs) = str_count sub cs"
  by simp

lemma count_hit:
  "sub \<noteq> [] \<Longrightarrow> str_count sub (sub @ r) = Suc (str_count sub r)"
  by (cases sub) auto

lemma count_pos_iff: "sub \<noteq> [] \<Longrightarrow> 0 < str_count sub s \<longleftrightarrow> contains sub s"
proof (induction s rule: length_induct)
  case (1 s)
  show ?case
  proof (cases s)
    case Nil
    then show ?thesis using 1(2) by simp
  next
    case (Cons c cs)
    then show ?thesis using 1 by (cases "prefix sub (c # cs)") auto
  qed
qed

lemma split_acc_not_empty: "split_acc sep cur s \<noteq> []"
  by (induction sep cur s rule: split_acc.induct) auto

lemma str_join_cons: "ps \<noteq> [] \<Longrightarrow> str_join sep (p # ps) = p @ sep @ str_join sep ps"
  by (cases ps) auto

lemma join_split_acc:
  "old \<noteq> [] \<Longrightarrow> str_join new (split_acc old cur s) = rev cur @ str_replace old new s"
proof (induction old cur s rule: split_acc.induct)
  case (1 sep cur)
  then show ?case by simp
next
  case (2 sep cur c cs)
  show ?case
  proof (cases "prefix sep (c # cs)")
    case True
    with 2 show ?thesis by (simp add: str_join_cons split_acc_not_empty)
  next
    case False
    with 2 show ?thesis by simp
  qed
qed

lemma replace_is_join_split:
  "old \<noteq> [] \<Longrightarrow> str_replace old new s = str_join new (str_split old s)"
  by (simp add: str_split_def join_split_acc)

lemma replace_self: "old \<noteq> [] \<Longrightarrow> str_replace old old s = s"
proof (induction s rule: length_induct)
  case (1 s)
  show ?case
  proof (cases s)
    case Nil
    then show ?thesis using 1(2) by simp
  next
    case (Cons c cs)
    show ?thesis
    proof (cases "prefix old (c # cs)")
      case True
      then obtain r where r: "c # cs = old @ r" by (auto simp: prefix_def)
      have "length r < length s"
        using r Cons 1(2) by (metis length_append length_greater_0_conv less_add_same_cancel2)
      then have "str_replace old old r = r" using 1 by blast
      then show ?thesis using r Cons 1(2) by (simp add: replace_hit)
    next
      case False
      then show ?thesis using 1 Cons by simp
    qed
  qed
qed

lemma length_split_acc:
  "sep \<noteq> [] \<Longrightarrow> length (split_acc sep cur s) = Suc (str_count sep s)"
  by (induction sep cur s rule: split_acc.induct) auto

section \<open>Properties of \<open>fix_eval\<close>\<close>

lemma fix_eval_skip: "\<not> prefix ''eval('' (c # cs) \<Longrightarrow> fix_eval (c # cs) = c # fix_eval cs"
  unfolding fix_eval_def by (rule replace_skip) simp_all

lemma fix_eval_hit: "fix_eval (''eval('' @ r) = ''ast.literal_eval('' @ fix_eval r"
  unfolding fix_eval_def by (rule replace_hit) simp

lemma count_safe_head:
  "str_count ''eval('' (''ast.literal_eval('' @ r) = Suc (str_count ''eval('' r)"
  by simp

text \<open>
  The text that follows a character kept by \<open>fix_eval\<close> continues the token only if the
  text before the replacement did.
\<close>

lemma fix_eval_tail1: "prefix ''('' (fix_eval s) \<Longrightarrow> prefix ''('' s"
  by (cases s) (auto simp: fix_eval_def split: if_splits)

lemma fix_eval_tail2: "prefix ''l('' (fix_eval s) \<Longrightarrow> prefix ''l('' s"
  using fix_eval_tail1 by (cases s) (auto simp: fix_eval_def split: if_splits)

lemma fix_eval_tail3: "prefix ''al('' (fix_eval s) \<Longrightarrow> prefix ''al('' s"
  using fix_eval_tail2 by (cases s) (auto simp: fix_eval_def split: if_splits)

lemma fix_eval_tail4: "prefix ''val('' (fix_eval s) \<Longrightarrow> prefix ''val('' s"
  using fix_eval_tail3 by (cases s) (auto simp: fix_eval_def split: if_splits)

lemma no_new_head:
  "\<not> prefix ''eval('' (c # cs) \<Longrightarrow> \<not> prefix ''eval('' (c # fix_eval cs)"
  using fix_eval_tail4 by auto

lemma count_fix_eval: "str_count ''eval('' (fix_eval t) = str_count ''eval('' t"
proof (induction t rule: length_induct)
  case (1 t)
  show ?case
  proof (cases t)
    case Nil
    then show ?thesis by (simp add: fix_eval_def)
  next
    case (Cons c cs)
    show ?thesis
    proof (cases "prefix ''eval('' t")
      case True
      then obtain r where t: "t = ''eval('' @ r" by (auto simp: prefix_def)
      then have "length r < length t" by simp
      with 1 have ih: "str_count ''eval('' (fix_eval r) = str_count ''eval('' r" by blast
      have "str_count ''eval('' (fix_eval t) = Suc (str_count ''eval('' (fix_eval r))"
        unfolding t fix_eval_hit by (rule count_safe_head)
      moreover have "str_count ''eval('' t = Suc (str_count ''eval('' r)"
        unfolding t by (rule count_hit) simp
      ultimately show ?thesis using ih by simp
    next
      case False
      then have np: "\<not> prefix ''eval('' (c # cs)" using Cons by simp
      have f: "fix_eval t = c # fix_eval cs" unfolding Cons using np by (rule fix_eval_skip)
      have "str_count ''eval('' (c # fix_eval cs) = str_count ''eval('' (fix_eval cs)"
        by (rule count_skip) (simp, rule no_new_head[OF np])
      moreover have "str_count ''eval('' t = str_count ''eval('' cs"
        unfolding Cons by (rule count_skip) (simp, rule np)
      moreover have "str_count ''eval('' (fix_eval cs) = str_count ''eval('' cs"
        using 1 Cons by simp
      ultimately show ?thesis using f by simp
    qed
  qed
qed

lemma length_fix_eval: "length (fix_eval t) = length t + 12 * str_count ''eval('' t"
proof (induction t rule: length_induct)
  case (1 t)
  show ?case
  proof (cases t)
    case Nil
    then show ?thesis by (simp add: fix_eval_def)
  next
    case (Cons c cs)
    show ?thesis
    proof (cases "prefix ''eval('' t")
      case True
      then obtain r where t: "t = ''eval('' @ r" by (auto simp: prefix_def)
      then have "length r < length t" by simp
      with 1 have ih: "length (fix_eval r) = length r + 12 * str_count ''eval('' r" by blast
      have c: "str_count ''eval('' t = Suc (str_count ''eval('' r)"
        unfolding t by (rule count_hit) simp
      have "length (fix_eval t) = 17 + length (fix_eval r)"
        unfolding t fix_eval_hit by simp
      moreover have "length t = 5 + length r" unfolding t by simp
      ultimately show ?thesis using ih c by simp
    next
      case False
      then have np: "\<not> prefix ''eval('' (c # cs)" using Cons by simp
      have f: "fix_eval t = c # fix_eval cs" unfolding Cons using np by (rule fix_eval_skip)
      have "str_count ''eval('' t = str_count ''eval('' cs"
        unfolding Cons by (rule count_skip) (simp, rule np)
      moreover have "length (fix_eval cs) = length cs + 12 * str_count ''eval('' cs"
        using 1 Cons by simp
      ultimately show ?thesis using f Cons by simp
    qed
  qed
qed

lemma fix_eval_id: "\<not> contains ''eval('' t \<Longrightarrow> fix_eval t = t"
proof (induction t)
  case Nil
  then show ?case by (simp add: fix_eval_def)
next
  case (Cons c cs)
  then have np: "\<not> prefix ''eval('' (c # cs)" and nc: "\<not> contains ''eval('' cs" by auto
  show ?case unfolding fix_eval_skip[OF np] using Cons.IH[OF nc] by simp
qed

lemma fix_eval_inserts_safe_call:
  "contains ''eval('' t \<Longrightarrow> contains ''ast.literal_eval('' (fix_eval t)"
proof (induction t rule: length_induct)
  case (1 t)
  show ?case
  proof (cases t)
    case Nil
    then show ?thesis using 1(2) by simp
  next
    case (Cons c cs)
    show ?thesis
    proof (cases "prefix ''eval('' t")
      case True
      then obtain r where t: "t = ''eval('' @ r" by (auto simp: prefix_def)
      have "fix_eval t = [] @ ''ast.literal_eval('' @ fix_eval r"
        unfolding t fix_eval_hit by simp
      then show ?thesis unfolding contains_iff by blast
    next
      case False
      then have np: "\<not> prefix ''eval('' (c # cs)" using Cons by simp
      have "contains ''eval('' (c # cs)" using 1(2) Cons by (simp only:)
      with np have "contains ''eval('' cs" by (simp only: contains.simps) blast
      then have "contains ''ast.literal_eval('' (fix_eval cs)" using 1(1) Cons by simp
      then show ?thesis unfolding Cons fix_eval_skip[OF np] by simp
    qed
  qed
qed

lemma safe_call_contains_token:
  "contains ''ast.literal_eval('' text \<Longrightarrow> contains ''eval('' text"
proof -
  have "''ast.literal_eval('' = ''ast.literal_'' @ ''eval('' @ []" by simp
  then have "contains ''eval('' ''ast.literal_eval(''" unfolding contains_iff by blast
  then show "contains ''ast.literal_eval('' text \<Longrightarrow> contains ''eval('' text"
    by (rule contains_trans)
qed

lemma bug_fixer_fix_eval:
  assumes "fs f = Some t" and "f \<noteq> []"
  shows "bug_fixer_run fs [\<lparr>pfile = Some f, action = ''fix_eval''\<rparr>] =
         Inr (fs(f \<mapsto> fix_eval t), [\<lparr>cfile = f, update = ''eval() replaced''\<rparr>])"
  using assms by (simp add: bug_fixer_run_def truthy_def read_file_def write_file_def)

section \<open>The remediation \<open>fix_eval\<close>\<close>

text \<open>
  C1, as the code has it. Applying the action \<open>fix_eval\<close> to a file whose text has
  \<open>N\<close> occurrences of the token \<^verbatim>\<open>eval(\<close> overwrites the file with the text in which
  each of the \<open>N\<close> occurrences is replaced by \<^verbatim>\<open>ast.literal_eval(\<close>: the text is cut
  at the occurrences into \<open>N + 1\<close> pieces, and the new text is these pieces joined by the
  safe call instead of the token. Each inserted safe call ends with the token, so the new
  text has \<open>N\<close> occurrences of the token again (and none only when \<open>N = 0\<close>).
\<close>

theorem fix_eval_replaces_every_occurrence:
  assumes "fs f = Some t" and "f \<noteq> []" and "str_count ''eval('' t = N"
  shows "bug_fixer_run fs [\<lparr>pfile = Some f, action = ''fix_eval''\<rparr>] =
           Inr (fs(f \<mapsto> fix_eval t), [\<lparr>cfile = f, update = ''eval() replaced''\<rparr>])
         \<and> length (str_split ''eval('' t) = Suc N
         \<and> t = str_join ''eval('' (str_split ''eval('' t)
         \<and> fix_eval t = str_join ''ast.literal_eval('' (str_split ''eval('' t)
         \<and> str_count ''eval('' (fix_eval t) = N"
proof -
  have ne: "''eval('' \<noteq> []" by simp
  have a: "length (str_split ''eval('' t) = Suc N"
    using assms(3) length_split_acc[OF ne] by (simp only: str_split_def)
  have "str_replace ''eval('' ''eval('' t = t" using ne by (rule replace_self)
  then have b: "t = str_join ''eval('' (str_split ''eval('' t)"
    using replace_is_join_split[OF ne, of "''eval(''" t] by simp
  have c: "fix_eval t = str_join ''ast.literal_eval('' (str_split ''eval('' t)"
    unfolding fix_eval_def using ne by (rule replace_is_join_split)
  have d: "str_count ''eval('' (fix_eval t) = N"
    using assms(3) by (simp only: count_fix_eval)
  from bug_fixer_fix_eval[of fs f t, OF assms(1,2)] a b c d show ?thesis by blast
qed

theorem fix_eval_replaces_every_occurrence_witness:
  "bug_fixer_run [''a.py'' \<mapsto> ''x = eval(1) + eval(y)'']
       [\<lparr>pfile = Some ''a.py'', action = ''fix_eval''\<rparr>] =
     Inr ([''a.py'' \<mapsto> ''x = ast.literal_eval(1) + ast.literal_eval(y)''],
          [\<lparr>cfile = ''a.py'', update = ''eval() replaced''\<rparr>])
   \<and> str_split ''eval('' ''x = eval(1) + eval(y)'' = [''x = '', ''1) + '', ''y)'']
   \<and> str_count ''eval('' (fix_eval ''x = eval(1) + eval(y)'') = 2"
proof -
  have h1: "[''a.py'' \<mapsto> ''x = eval(1) + eval(y)''] ''a.py'' = Some ''x = eval(1) + eval(y)''"
    by simp
  have h2: "''a.py'' \<noteq> []" by simp
  have h3: "str_count ''eval('' ''x = eval(1) + eval(y)'' = 2" by simp
  have v: "fix_eval ''x = eval(1) + eval(y)'' = ''x = ast.literal_eval(1) + ast.literal_eval(y)''"
    by (simp add: fix_eval_def)
  have s: "str_split ''eval('' ''x = eval(1) + eval(y)'' = [''x = '', ''1) + '', ''y)'']"
    by (simp add: str_split_def)
  from fix_eval_replaces_every_occurrence
         [of "[''a.py'' \<mapsto> ''x = eval(1) + eval(y)'']" "''a.py''" "''x = eval(1) + eval(y)''" 2,
          OF h1 h2 h3] v s
  show ?thesis by simp
qed

theorem fix_eval_token_remains_counterexample:
  "str_count ''eval('' ''x = eval(1)'' = 1
   \<and> fix_eval ''x = eval(1)'' = ''x = ast.literal_eval(1)''
   \<and> str_count ''eval('' (fix_eval ''x = eval(1)'') \<noteq> 0
   \<and> contains ''eval('' (fix_eval ''x = eval(1)'')"
  by (simp add: fix_eval_def)

text \<open>
  C2, as the code has it. \<open>fix_eval\<close> leaves a text as it is exactly when the text has
  no occurrence of the token \<^verbatim>\<open>eval(\<close>. On a text with \<open>N\<close> occurrences every
  application makes the text \<open>12 * N\<close> characters longer, so a second application gives
  the text of the first one only for \<open>N = 0\<close>.
\<close>

theorem fix_eval_idempotent_iff:
  "(fix_eval (fix_eval t) = fix_eval t \<longleftrightarrow> \<not> contains ''eval('' t)
   \<and> (fix_eval t = t \<longleftrightarrow> \<not> contains ''eval('' t)
   \<and> length (fix_eval (fix_eval t)) = length t + 24 * str_count ''eval('' t"
proof -
  have ne: "''eval('' \<noteq> []" by simp
  have len2: "length (fix_eval (fix_eval t)) = length t + 24 * str_count ''eval('' t"
    by (simp add: length_fix_eval count_fix_eval)
  have pos: "contains ''eval('' t \<Longrightarrow> 0 < str_count ''eval('' t"
    using count_pos_iff[OF ne] by blast
  have grow1: "contains ''eval('' t \<Longrightarrow> fix_eval t \<noteq> t"
  proof
    assume c: "contains ''eval('' t" and e: "fix_eval t = t"
    have "length (fix_eval t) = length t + 12 * str_count ''eval('' t" by (rule length_fix_eval)
    with e pos[OF c] show False by simp
  qed
  have grow2: "contains ''eval('' t \<Longrightarrow> fix_eval (fix_eval t) \<noteq> fix_eval t"
  proof
    assume c: "contains ''eval('' t" and e: "fix_eval (fix_eval t) = fix_eval t"
    have "length (fix_eval t) = length t + 12 * str_count ''eval('' t" by (rule length_fix_eval)
    with e len2 pos[OF c] show False by simp
  qed
  have keep: "\<not> contains ''eval('' t \<Longrightarrow> fix_eval t = t" by (rule fix_eval_id)
  from grow1 grow2 keep len2 show ?thesis by metis
qed

theorem fix_eval_idempotent_iff_witness:
  "fix_eval (fix_eval ''x = 1'') = fix_eval ''x = 1''
   \<and> length (fix_eval (fix_eval ''x = eval(1)'')) = 35"
proof -
  have a: "\<not> contains ''eval('' ''x = 1''" by simp
  have b: "str_count ''eval('' ''x = eval(1)'' = 1" by simp
  from fix_eval_idempotent_iff[of "''x = 1''"] fix_eval_idempotent_iff[of "''x = eval(1)''"] a b
  show ?thesis by simp
qed

theorem fix_eval_not_idempotent_counterexample:
  "fix_eval ''x = eval(1)'' = ''x = ast.literal_eval(1)''
   \<and> fix_eval (fix_eval ''x = eval(1)'') = ''x = ast.literal_ast.literal_eval(1)''
   \<and> fix_eval (fix_eval ''x = eval(1)'') \<noteq> fix_eval ''x = eval(1)''"
  by (simp add: fix_eval_def)

section \<open>Properties of the traversal, the dictionaries and the loops\<close>

lemma walk_queue_append:
  "walk_queue (q @ r) = q @ walk_queue (r @ concat (map children q))"
proof (induction q arbitrary: r)
  case Nil
  then show ?case by simp
next
  case (Cons n q)
  have "walk_queue ((n # q) @ r) = n # walk_queue (q @ (r @ children n))" by simp
  also have "\<dots> = n # q @ walk_queue ((r @ children n) @ concat (map children q))"
    using Cons.IH[of "r @ children n"] by simp
  finally show ?case by simp
qed

lemma walk_queue_levels: "walk_queue q = q @ walk_queue (concat (map children q))"
  using walk_queue_append[of q "[]"] by simp

lemma preorder_unfold: "preorder n = n # concat (map preorder (children n))"
  by (cases n) simp

lemma mset_walk_queue: "mset (walk_queue q) = mset (concat (map preorder q))"
proof (induction q rule: walk_queue.induct)
  case 1
  then show ?case by simp
next
  case (2 n todo)
  have "mset (preorder n) = {#n#} + mset (concat (map preorder (children n)))"
    by (cases n) simp
  then have "mset (concat (map preorder (n # todo))) =
        {#n#} + mset (concat (map preorder (children n))) + mset (concat (map preorder todo))"
    by simp
  with 2 show ?case by simp
qed

lemma mset_walk: "mset (walk tree) = mset (preorder tree)"
  unfolding walk_def mset_walk_queue by simp

lemma scan_nodes_eq:
  "scan_nodes seg text ns acc = acc @ map issue_of (filter (oversized seg text) ns)"
  by (induction ns arbitrary: acc) (auto simp: oversized_def issue_of_def)

lemma analyze_text_eq:
  "analyze_text seg parse text =
     (if contains ''eval('' text then [security_issue] else []) @
     (case parse text of
        Inr tree \<Rightarrow> map issue_of (filter (oversized seg text) (walk tree))
      | Inl e \<Rightarrow> [])"
  by (simp add: analyze_text_def scan_nodes_eq split: sum.splits)

lemma itype_issue_of: "itype (issue_of n) = ''complexity''"
  by (simp add: issue_of_def complexity_issue_def)

lemma itype_security_issue: "itype security_issue = ''security''"
  by (simp add: security_issue_def)

lemma security_part:
  "filter (\<lambda>d. itype d = ''security'') (analyze_text seg parse text) =
     (if contains ''eval('' text then [security_issue] else [])"
  by (simp add: analyze_text_eq itype_issue_of itype_security_issue filter_map comp_def
      split: sum.splits)

lemma complexity_part:
  "filter (\<lambda>d. itype d = ''complexity'') (analyze_text seg parse text) =
     (case parse text of
        Inr tree \<Rightarrow> map issue_of (filter (oversized seg text) (walk tree))
      | Inl e \<Rightarrow> [])"
  by (simp add: analyze_text_eq itype_issue_of itype_security_issue filter_map comp_def
      split: sum.splits)

lemma keys_dict_set:
  "keys (dict_set k v d) = (if k \<in> set (keys d) then keys d else keys d @ [k])"
  by (induction d) (force simp: keys_def)+

lemma map_of_dict_set: "map_of (dict_set k v d) = (map_of d)(k \<mapsto> v)"
  by (induction d) (auto simp: fun_eq_iff)

lemma keys_fold_dict_set:
  "distinct files \<Longrightarrow> set files \<inter> set (keys d) = {} \<Longrightarrow>
   keys (fold (\<lambda>f. dict_set f (g f)) files d) = keys d @ files"
proof (induction files arbitrary: d)
  case Nil
  then show ?case by simp
next
  case (Cons f files)
  have k: "keys (dict_set f (g f) d) = keys d @ [f]"
    using Cons.prems(2) by (simp add: keys_dict_set)
  have "set files \<inter> set (keys (dict_set f (g f) d)) = {}"
    using Cons.prems k by auto
  with Cons.IH[of "dict_set f (g f) d"] Cons.prems(1) k show ?case by simp
qed

lemma map_of_fold_dict_set:
  "map_of (fold (\<lambda>f. dict_set f (g f)) files d) f =
     (if f \<in> set files then Some (g f) else map_of d f)"
proof (induction files arbitrary: d)
  case Nil
  then show ?case by simp
next
  case (Cons a files)
  show ?case by (simp add: Cons.IH map_of_dict_set)
qed

lemma deps_loop_fold:
  "deps_loop fs parse files d = Inr (fold (\<lambda>f. dict_set f (deps_entry fs parse f)) files d)"
  by (induction files arbitrary: d) (auto simp: deps_entry_def split: sum.splits)

lemma issues_loop_fold:
  "\<forall>f\<in>set files. fs f \<noteq> None \<Longrightarrow>
   issues_loop fs seg parse files d =
     Inr (fold (\<lambda>f. dict_set f (analyze_text seg parse (the (fs f)))) files d)"
  by (induction files arbitrary: d) (auto simp: read_file_def split: sum.splits option.splits)

lemma issues_loop_returns:
  "issues_loop fs seg parse files d = Inr d' \<Longrightarrow> \<forall>f\<in>set files. fs f \<noteq> None"
  by (induction files arbitrary: d) (auto simp: read_file_def split: sum.splits option.splits)

lemma issues_loop_raises:
  "\<exists>f\<in>set files. fs f = None \<Longrightarrow> \<exists>e. issues_loop fs seg parse files d = Inl e"
  by (induction files arbitrary: d) (auto simp: read_file_def split: sum.splits option.splits)

lemma static_analyzer_entry:
  assumes "static_analyzer_run fs seg parse files = Inr issues"
    and "f \<in> set files" and "fs f = Some text"
  shows "map_of issues f = Some (analyze_text seg parse text)"
proof -
  have r: "\<forall>f\<in>set files. fs f \<noteq> None"
    using assms(1) issues_loop_returns unfolding static_analyzer_run_def by blast
  then have "issues = fold (\<lambda>f. dict_set f (analyze_text seg parse (the (fs f)))) files []"
    using assms(1) issues_loop_fold[OF r] unfolding static_analyzer_run_def by simp
  then show ?thesis using assms(2,3) by (simp add: map_of_fold_dict_set)
qed

lemma plan_issues_eq:
  "\<forall>i\<in>set iss. known_kind i \<Longrightarrow> plan_issues f iss plan = plan @ map (remedy f) iss"
  by (induction iss arbitrary: plan) (auto simp: known_kind_def remedy_def)

lemma plan_files_eq:
  "\<forall>(f, iss)\<in>set issues. \<forall>i\<in>set iss. known_kind i \<Longrightarrow>
   plan_files issues plan = plan @ concat (map (\<lambda>(f, iss). map (remedy f) iss) issues)"
proof (induction issues arbitrary: plan)
  case Nil
  then show ?case by simp
next
  case (Cons p issues)
  obtain f iss where p: "p = (f, iss)" by (cases p)
  have a: "\<forall>i\<in>set iss. known_kind i" using Cons.prems p by auto
  have b: "\<forall>(f, iss)\<in>set issues. \<forall>i\<in>set iss. known_kind i" using Cons.prems by auto
  show ?case using Cons.IH[OF b] plan_issues_eq[OF a] p by simp
qed

lemma compile_loop_eq:
  "\<forall>f\<in>set files. \<forall>m. compile_file f \<noteq> Inl (BaseException m) \<Longrightarrow>
   compile_loop compile_file files errors =
     Inr (errors @ concat (map (compile_error compile_file) files))"
  by (induction files arbitrary: errors)
     (auto simp: compile_error_def split: sum.splits exn.splits)

lemma split_acc_newlines:
  "split_acc newline cur (replicate n (CHR 0x0A)) = rev cur # replicate n []"
  by (induction n arbitrary: cur) (simp_all add: newline_def)

lemma lines_of_newlines: "length (str_split newline (replicate n (CHR 0x0A))) = Suc n"
  by (simp add: str_split_def split_acc_newlines)

lemma analyze_text_known_kind: "\<forall>i\<in>set (analyze_text seg parse text). known_kind i"
  by (auto simp: analyze_text_eq known_kind_def itype_issue_of itype_security_issue
      split: sum.splits if_splits)

section \<open>The security check\<close>

text \<open>
  C5. In the report of a run, the issues of a file hold exactly one security issue when
  the text of the file contains the token \<^verbatim>\<open>eval(\<close>, however often, and no security
  issue when it does not.
\<close>

theorem security_issue_once:
  assumes "static_analyzer_run fs seg parse files = Inr issues"
    and "f \<in> set files" and "fs f = Some text"
  shows "\<exists>iss. map_of issues f = Some iss \<and>
           filter (\<lambda>d. itype d = ''security'') iss =
             (if contains ''eval('' text then [security_issue] else [])"
  using static_analyzer_entry[OF assms] security_part by simp

theorem security_issue_once_witness:
  "static_analyzer_run [''a.py'' \<mapsto> ''eval(eval(x))'', ''b.py'' \<mapsto> ''x = 1'']
       (\<lambda>text node. None) (\<lambda>text. Inl (Exception ''invalid syntax'')) [''a.py'', ''b.py'']
     = Inr [(''a.py'', [security_issue]), (''b.py'', [])]
   \<and> str_count ''eval('' ''eval(eval(x))'' = 2
   \<and> (\<exists>iss. map_of [(''a.py'', [security_issue]), (''b.py'', [])] ''a.py'' = Some iss
         \<and> filter (\<lambda>d. itype d = ''security'') iss = [security_issue])
   \<and> (\<exists>iss. map_of [(''a.py'', [security_issue]), (''b.py'', []::issue list)] ''b.py'' = Some iss
         \<and> filter (\<lambda>d. itype d = ''security'') iss = [])"
proof -
  let ?fs = "[''a.py'' \<mapsto> ''eval(eval(x))'', ''b.py'' \<mapsto> ''x = 1'']"
  let ?seg = "\<lambda>(text::string) (node::ast). None :: string option"
  let ?parse = "\<lambda>text::string. Inl (Exception ''invalid syntax'') :: exn + ast"
  have run: "static_analyzer_run ?fs ?seg ?parse [''a.py'', ''b.py'']
     = Inr [(''a.py'', [security_issue]), (''b.py'', [])]"
    by (simp add: static_analyzer_run_def read_file_def analyze_text_def)
  have a: "''a.py'' \<in> set [''a.py'', ''b.py'']" and b: "''b.py'' \<in> set [''a.py'', ''b.py'']"
    by simp_all
  have fa: "?fs ''a.py'' = Some ''eval(eval(x))''" and fb: "?fs ''b.py'' = Some ''x = 1''"
    by simp_all
  have c: "str_count ''eval('' ''eval(eval(x))'' = 2" by simp
  from security_issue_once[of ?fs ?seg ?parse _ _ "''a.py''", OF run a fa]
       security_issue_once[of ?fs ?seg ?parse _ _ "''b.py''", OF run b fb] run c
  show ?thesis by simp
qed

section \<open>The security check after \<open>fix_eval\<close>\<close>

text \<open>
  C9. The security check is the substring test for \<^verbatim>\<open>eval(\<close> on the text of the file,
  and the safe call \<^verbatim>\<open>ast.literal_eval(\<close> contains that token. So the report of a run has
  the security issue for every file whose text contains the safe call, and a file that
  \<open>fix_eval\<close> has just rewritten is reported again by the next run.
\<close>

theorem safe_call_still_reported:
  "(security_issue \<in> set (analyze_text seg parse text) \<longleftrightarrow> contains ''eval('' text)
   \<and> (static_analyzer_run fs seg parse files = Inr issues \<and> f \<in> set files
        \<and> fs f = Some text \<and> contains ''ast.literal_eval('' text
      \<longrightarrow> (\<exists>iss. map_of issues f = Some iss \<and> security_issue \<in> set iss))
   \<and> (fs f = Some t \<and> f \<noteq> [] \<and> contains ''eval('' t
      \<longrightarrow> (\<exists>fs' changes iss.
             bug_fixer_run fs [\<lparr>pfile = Some f, action = ''fix_eval''\<rparr>] = Inr (fs', changes)
             \<and> static_analyzer_run fs' seg parse [f] = Inr [(f, iss)]
             \<and> security_issue \<in> set iss))"
proof -
  have "security_issue \<notin> issue_of ` S" for S
    by (auto simp: security_issue_def issue_of_def complexity_issue_def)
  then have sec_iff: "security_issue \<in> set (analyze_text seg parse x) \<longleftrightarrow> contains ''eval('' x" for x
    by (auto simp: analyze_text_eq split: sum.splits)
  have p2: "static_analyzer_run fs seg parse files = Inr issues \<and> f \<in> set files
        \<and> fs f = Some text \<and> contains ''ast.literal_eval('' text
      \<longrightarrow> (\<exists>iss. map_of issues f = Some iss \<and> security_issue \<in> set iss)"
  proof
    assume a: "static_analyzer_run fs seg parse files = Inr issues \<and> f \<in> set files
        \<and> fs f = Some text \<and> contains ''ast.literal_eval('' text"
    then have "map_of issues f = Some (analyze_text seg parse text)"
      using static_analyzer_entry by blast
    moreover have "contains ''eval('' text" using a safe_call_contains_token by blast
    ultimately show "\<exists>iss. map_of issues f = Some iss \<and> security_issue \<in> set iss"
      using sec_iff by blast
  qed
  have p3: "fs f = Some t \<and> f \<noteq> [] \<and> contains ''eval('' t
      \<longrightarrow> (\<exists>fs' changes iss.
             bug_fixer_run fs [\<lparr>pfile = Some f, action = ''fix_eval''\<rparr>] = Inr (fs', changes)
             \<and> static_analyzer_run fs' seg parse [f] = Inr [(f, iss)]
             \<and> security_issue \<in> set iss)"
  proof
    assume a: "fs f = Some t \<and> f \<noteq> [] \<and> contains ''eval('' t"
    then have fx: "bug_fixer_run fs [\<lparr>pfile = Some f, action = ''fix_eval''\<rparr>] =
         Inr (fs(f \<mapsto> fix_eval t), [\<lparr>cfile = f, update = ''eval() replaced''\<rparr>])"
      using bug_fixer_fix_eval[of fs f t] by blast
    have run: "static_analyzer_run (fs(f \<mapsto> fix_eval t)) seg parse [f] =
        Inr [(f, analyze_text seg parse (fix_eval t))]"
      by (simp add: static_analyzer_run_def read_file_def)
    have "contains ''eval('' (fix_eval t)"
      using a fix_eval_inserts_safe_call safe_call_contains_token by blast
    then have "security_issue \<in> set (analyze_text seg parse (fix_eval t))" using sec_iff by blast
    with fx run show "\<exists>fs' changes iss.
             bug_fixer_run fs [\<lparr>pfile = Some f, action = ''fix_eval''\<rparr>] = Inr (fs', changes)
             \<and> static_analyzer_run fs' seg parse [f] = Inr [(f, iss)]
             \<and> security_issue \<in> set iss" by blast
  qed
  from sec_iff[of "text"] p2 p3 show ?thesis by (intro conjI)
qed

theorem safe_call_still_reported_witness:
  "contains ''ast.literal_eval('' ''x = ast.literal_eval(y)''
   \<and> security_issue \<in> set (analyze_text (\<lambda>text node. None)
         (\<lambda>text. Inl (Exception ''invalid syntax'')) ''x = ast.literal_eval(y)'')
   \<and> (\<exists>fs' changes iss.
         bug_fixer_run [''a.py'' \<mapsto> ''x = eval(y)'']
           [\<lparr>pfile = Some ''a.py'', action = ''fix_eval''\<rparr>] = Inr (fs', changes)
         \<and> static_analyzer_run fs' (\<lambda>text node. None)
              (\<lambda>text. Inl (Exception ''invalid syntax'')) [''a.py''] = Inr [(''a.py'', iss)]
         \<and> security_issue \<in> set iss)"
proof -
  let ?fs = "[''a.py'' \<mapsto> ''x = eval(y)'']"
  let ?seg = "\<lambda>(text::string) (node::ast). None :: string option"
  let ?parse = "\<lambda>text::string. Inl (Exception ''invalid syntax'') :: exn + ast"
  have c1: "contains ''ast.literal_eval('' ''x = ast.literal_eval(y)''" by simp
  have c2: "contains ''eval('' ''x = ast.literal_eval(y)''" by simp
  have h: "?fs ''a.py'' = Some ''x = eval(y)'' \<and> ''a.py'' \<noteq> [] \<and> contains ''eval('' ''x = eval(y)''"
    by simp
  from safe_call_still_reported
         [of ?seg ?parse "''x = ast.literal_eval(y)''" ?fs "[]" "[]" "''a.py''" "''x = eval(y)''"]
       c1 c2 h
  show ?thesis by blast
qed

section \<open>The complexity check\<close>

lemma long_segment_lines: "length (str_split newline long_segment) = 121"
  by (simp add: long_segment_def lines_of_newlines)

lemma limit_segment_lines: "length (str_split newline limit_segment) = 120"
  by (simp add: limit_segment_def lines_of_newlines)

lemma walk_nested: "walk nested_tree =
  [nested_tree, Node (FunctionDef ''outer'') 1 0 [Node (FunctionDef ''inner'') 2 4 []],
   Node (FunctionDef ''last'') 130 0 [], Node (FunctionDef ''inner'') 2 4 []]"
  by (simp add: walk_def nested_tree_def)

lemma analyze_nested:
  "analyze_text all_long parse_nested txt =
     (if contains ''eval('' txt then [security_issue] else []) @
     [complexity_issue ''outer'', complexity_issue ''last'', complexity_issue ''inner'']"
  by (simp add: analyze_text_eq walk_nested oversized_def segment_lines_def parse_nested_def
      all_long_def long_segment_lines issue_of_def) (simp add: nested_tree_def)

lemma complexity_issue_inj: "complexity_issue a = complexity_issue b \<longleftrightarrow> a = b"
  by (simp add: complexity_issue_def)

lemma is_FunctionDef_iff:
  "is_FunctionDef n \<longleftrightarrow> (\<exists>name l c ns. n = Node (FunctionDef name) l c ns)"
  by (cases n rule: is_FunctionDef.cases) simp_all

text \<open>
  C3, as the code has it. Let a run report the file \<open>f\<close>, whose text parses to \<open>tree\<close>.
  The complexity issues in the entry of \<open>f\<close> are, counted with multiplicity, the issues of
  the \<^verbatim>\<open>FunctionDef\<close> nodes of \<open>tree\<close> whose source segment has more than 120 lines: one
  issue for each such node, carrying its name, and none for a node of 120 lines or fewer.
  The segment is the whole \<^verbatim>\<open>def\<close> statement, from the line of the \<^verbatim>\<open>def\<close> to the last line
  of the body, so the lines of the header count as well as those of the body. An
  \<^verbatim>\<open>async def\<close> is never too long, whatever its length.
\<close>

theorem complexity_issue_per_long_function:
  assumes "static_analyzer_run fs seg parse files = Inr issues"
    and "f \<in> set files" and "fs f = Some text" and "parse text = Inr tree"
  shows "\<exists>iss. map_of issues f = Some iss
           \<and> mset (filter (\<lambda>d. itype d = ''complexity'') iss) =
               image_mset issue_of (filter_mset (oversized seg text) (mset (preorder tree)))
           \<and> length (filter (\<lambda>d. itype d = ''complexity'') iss) =
               length (filter (oversized seg text) (preorder tree))
           \<and> (\<forall>n m. issue_of n = issue_of m \<longleftrightarrow> name_of n = name_of m)
           \<and> (\<forall>n. oversized seg text n \<longleftrightarrow>
                 (\<exists>name l c ns. n = Node (FunctionDef name) l c ns)
                 \<and> 120 < segment_lines seg text n)
           \<and> (\<forall>name l c ns. \<not> oversized seg text (Node (AsyncFunctionDef name) l c ns))"
proof -
  let ?iss = "analyze_text seg parse text"
  have e: "map_of issues f = Some ?iss" using assms(1-3) by (rule static_analyzer_entry)
  have c: "filter (\<lambda>d. itype d = ''complexity'') ?iss =
      map issue_of (filter (oversized seg text) (walk tree))"
    using assms(4) by (simp add: complexity_part)
  have m: "mset (filter (\<lambda>d. itype d = ''complexity'') ?iss) =
      image_mset issue_of (filter_mset (oversized seg text) (mset (preorder tree)))"
    unfolding c by (simp add: mset_walk)
  have "mset (filter (oversized seg text) (walk tree)) =
      mset (filter (oversized seg text) (preorder tree))"
    by (simp add: mset_walk)
  then have "length (filter (oversized seg text) (walk tree)) =
      length (filter (oversized seg text) (preorder tree))"
    by (rule mset_eq_length)
  then have l: "length (filter (\<lambda>d. itype d = ''complexity'') ?iss) =
      length (filter (oversized seg text) (preorder tree))"
    unfolding c by simp
  have n: "\<forall>n m. issue_of n = issue_of m \<longleftrightarrow> name_of n = name_of m"
    by (simp add: issue_of_def complexity_issue_inj)
  have o: "\<forall>n. oversized seg text n \<longleftrightarrow>
      (\<exists>name l c ns. n = Node (FunctionDef name) l c ns) \<and> 120 < segment_lines seg text n"
    by (simp add: oversized_def is_FunctionDef_iff)
  have a: "\<forall>name l c ns. \<not> oversized seg text (Node (AsyncFunctionDef name) l c ns)"
    by (simp add: oversized_def)
  from e m l n o a show ?thesis by blast
qed

theorem complexity_issue_per_long_function_witness:
  "static_analyzer_run [''a.py'' \<mapsto> ''src''] big_is_long parse_mixed [''a.py''] =
     Inr [(''a.py'', [complexity_issue ''big''])]
   \<and> filter (oversized big_is_long ''src'') (preorder mixed_tree) =
       [Node (FunctionDef ''big'') 1 0 []]
   \<and> segment_lines big_is_long ''src'' (Node (FunctionDef ''small'') 130 0 []) = 120
   \<and> (\<exists>iss. map_of [(''a.py'', [complexity_issue ''big''])] ''a.py'' = Some iss
         \<and> length (filter (\<lambda>d. itype d = ''complexity'') iss) = 1)"
proof -
  have w: "walk mixed_tree =
      [mixed_tree, Node (FunctionDef ''big'') 1 0 [], Node (FunctionDef ''small'') 130 0 []]"
    by (simp add: walk_def mixed_tree_def)
  have nm: "\<not> is_FunctionDef mixed_tree" by (simp add: mixed_tree_def)
  have an: "analyze_text big_is_long parse_mixed ''src'' = [complexity_issue ''big'']"
    using nm by (simp add: analyze_text_eq w oversized_def segment_lines_def parse_mixed_def
        big_is_long_def long_segment_lines limit_segment_lines issue_of_def)
  have run: "static_analyzer_run [''a.py'' \<mapsto> ''src''] big_is_long parse_mixed [''a.py''] =
     Inr [(''a.py'', [complexity_issue ''big''])]"
    by (simp add: static_analyzer_run_def read_file_def an)
  have p: "filter (oversized big_is_long ''src'') (preorder mixed_tree) =
       [Node (FunctionDef ''big'') 1 0 []]"
    by (simp add: mixed_tree_def oversized_def segment_lines_def big_is_long_def
        long_segment_lines limit_segment_lines)
  have s: "segment_lines big_is_long ''src'' (Node (FunctionDef ''small'') 130 0 []) = 120"
    by (simp add: segment_lines_def big_is_long_def limit_segment_lines)
  have h2: "''a.py'' \<in> set [''a.py'']" by simp
  have h3: "[''a.py'' \<mapsto> ''src''] ''a.py'' = Some ''src''" by simp
  have h4: "parse_mixed ''src'' = Inr mixed_tree" by (simp add: parse_mixed_def)
  from complexity_issue_per_long_function
         [of "[''a.py'' \<mapsto> ''src'']" big_is_long parse_mixed "[''a.py'']" _ "''a.py''" "''src''"
            mixed_tree, OF run h2 h3 h4] run p s
  show ?thesis by simp
qed

text \<open>
  The claim about the body fails in both directions. The function \<^verbatim>\<open>f\<close> has a body of
  120 lines under a header of one line and is reported, since its \<^verbatim>\<open>def\<close> statement has
  121 lines. The function \<^verbatim>\<open>g\<close>, an \<^verbatim>\<open>async def\<close> of 131 lines with a body of 130 lines, is
  not reported.
\<close>

theorem complexity_body_span_counterexample:
  "function_definition (Node (FunctionDef ''f'') 1 0 [Node Stmt 2 4 [], Node Stmt 3 4 []])
   \<and> body_span short_body_segments ''src''
       (Node (FunctionDef ''f'') 1 0 [Node Stmt 2 4 [], Node Stmt 3 4 []]) = 120
   \<and> segment_lines short_body_segments ''src''
       (Node (FunctionDef ''f'') 1 0 [Node Stmt 2 4 [], Node Stmt 3 4 []]) = 121
   \<and> preorder short_body_tree =
       [short_body_tree, Node (FunctionDef ''f'') 1 0 [Node Stmt 2 4 [], Node Stmt 3 4 []],
        Node Stmt 2 4 [], Node Stmt 3 4 []]
   \<and> static_analyzer_run one_file short_body_segments parse_short_body [''a.py''] =
       Inr [(''a.py'', [complexity_issue ''f''])]
   \<and> function_definition (Node (AsyncFunctionDef ''g'') 1 0 [Node Stmt 2 4 [], Node Stmt 3 4 []])
   \<and> body_span async_segments ''src''
       (Node (AsyncFunctionDef ''g'') 1 0 [Node Stmt 2 4 [], Node Stmt 3 4 []]) = 130
   \<and> segment_lines async_segments ''src''
       (Node (AsyncFunctionDef ''g'') 1 0 [Node Stmt 2 4 [], Node Stmt 3 4 []]) = 131
   \<and> preorder async_tree =
       [async_tree, Node (AsyncFunctionDef ''g'') 1 0 [Node Stmt 2 4 [], Node Stmt 3 4 []],
        Node Stmt 2 4 [], Node Stmt 3 4 []]
   \<and> static_analyzer_run one_file async_segments parse_async [''a.py''] =
       Inr [(''a.py'', [])]"
proof -
  let ?f = "Node (FunctionDef ''f'') 1 0 [Node Stmt 2 4 [], Node Stmt 3 4 []]"
  let ?g = "Node (AsyncFunctionDef ''g'') 1 0 [Node Stmt 2 4 [], Node Stmt 3 4 []]"
  have f1: "function_definition ?f" by simp
  have f2: "body_span short_body_segments ''src'' ?f = 120"
    by (simp add: body_span_def function_body_def segment_lines_def short_body_segments_def
        lines_of_newlines)
  have f3: "segment_lines short_body_segments ''src'' ?f = 121"
    by (simp add: segment_lines_def short_body_segments_def lines_of_newlines)
  have f4: "preorder short_body_tree = [short_body_tree, ?f, Node Stmt 2 4 [], Node Stmt 3 4 []]"
    by (simp add: short_body_tree_def)
  have wf: "walk short_body_tree = [short_body_tree, ?f, Node Stmt 2 4 [], Node Stmt 3 4 []]"
    by (simp add: walk_def short_body_tree_def)
  have nf: "\<not> is_FunctionDef short_body_tree" by (simp add: short_body_tree_def)
  have af: "analyze_text short_body_segments parse_short_body ''src'' = [complexity_issue ''f'']"
    using nf f3 by (simp add: analyze_text_eq wf oversized_def parse_short_body_def issue_of_def)
  have f5: "static_analyzer_run one_file short_body_segments parse_short_body
      [''a.py''] = Inr [(''a.py'', [complexity_issue ''f''])]"
    by (simp add: static_analyzer_run_def read_file_def one_file_def af)
  have g1: "function_definition ?g" by simp
  have g2: "body_span async_segments ''src'' ?g = 130"
    by (simp add: body_span_def function_body_def segment_lines_def async_segments_def
        lines_of_newlines)
  have g3: "segment_lines async_segments ''src'' ?g = 131"
    by (simp add: segment_lines_def async_segments_def lines_of_newlines)
  have g4: "preorder async_tree = [async_tree, ?g, Node Stmt 2 4 [], Node Stmt 3 4 []]"
    by (simp add: async_tree_def)
  have wg: "walk async_tree = [async_tree, ?g, Node Stmt 2 4 [], Node Stmt 3 4 []]"
    by (simp add: walk_def async_tree_def)
  have ng: "\<not> is_FunctionDef async_tree" by (simp add: async_tree_def)
  have ag: "analyze_text async_segments parse_async ''src'' = []"
    using ng by (simp add: analyze_text_eq wg oversized_def parse_async_def)
  have g5: "static_analyzer_run one_file async_segments parse_async [''a.py''] =
      Inr [(''a.py'', [])]"
    by (simp add: static_analyzer_run_def read_file_def one_file_def ag)
  from f1 f2 f3 f4 f5 g1 g2 g3 g4 g5 show ?thesis by blast
qed

section \<open>The order of the issues\<close>

text \<open>
  C6, as the code has it. The issues of a file are the security issue, if there is one,
  followed by the complexity issues; the complexity issues come in the order in which
  \<^verbatim>\<open>ast.walk\<close> yields the function definitions that are too long. That order is
  breadth-first: the walk yields the root, and it yields all the nodes of a queue, in
  their order, before any child of these nodes. A nested definition is therefore reported
  after the definitions that follow its parent at the parent's level, not in pre-order.
\<close>

theorem issues_in_walk_order:
  assumes "static_analyzer_run fs seg parse files = Inr issues"
    and "f \<in> set files" and "fs f = Some text"
  shows "map_of issues f =
           Some ((if contains ''eval('' text then [security_issue] else []) @
                 (case parse text of
                    Inr tree \<Rightarrow> map issue_of (filter (oversized seg text) (walk tree))
                  | Inl e \<Rightarrow> []))
         \<and> itype security_issue = ''security''
         \<and> (\<forall>n. itype (issue_of n) = ''complexity'')
         \<and> (\<forall>tree. walk tree = tree # walk_queue (children tree))
         \<and> (\<forall>q. walk_queue q = q @ walk_queue (concat (map children q)))"
proof (intro conjI allI)
  have a: "map_of issues f = Some (analyze_text seg parse text)"
    using assms by (rule static_analyzer_entry)
  show "map_of issues f =
           Some ((if contains ''eval('' text then [security_issue] else []) @
                 (case parse text of
                    Inr tree \<Rightarrow> map issue_of (filter (oversized seg text) (walk tree))
                  | Inl e \<Rightarrow> []))"
    using a unfolding analyze_text_eq .
  show "itype security_issue = ''security''" by (rule itype_security_issue)
  show "itype (issue_of n) = ''complexity''" for n by (rule itype_issue_of)
  show "walk tree = tree # walk_queue (children tree)" for tree by (simp add: walk_def)
  show "walk_queue q = q @ walk_queue (concat (map children q))" for q
    by (rule walk_queue_levels)
qed

theorem issues_in_walk_order_witness:
  "static_analyzer_run [''a.py'' \<mapsto> ''eval(1)''] all_long parse_nested [''a.py''] =
     Inr [(''a.py'', [security_issue, complexity_issue ''outer'', complexity_issue ''last'',
                      complexity_issue ''inner''])]
   \<and> map_of [(''a.py'', [security_issue, complexity_issue ''outer'', complexity_issue ''last'',
                      complexity_issue ''inner''])] ''a.py'' =
       Some ([security_issue] @
             map issue_of (filter (oversized all_long ''eval(1)'') (walk nested_tree)))"
proof -
  have run: "static_analyzer_run [''a.py'' \<mapsto> ''eval(1)''] all_long parse_nested [''a.py''] =
     Inr [(''a.py'', [security_issue, complexity_issue ''outer'', complexity_issue ''last'',
                      complexity_issue ''inner''])]"
    by (simp add: static_analyzer_run_def read_file_def analyze_nested)
  have h2: "''a.py'' \<in> set [''a.py'']" by simp
  have h3: "[''a.py'' \<mapsto> ''eval(1)''] ''a.py'' = Some ''eval(1)''" by simp
  have c: "contains ''eval('' ''eval(1)''" by simp
  from issues_in_walk_order
         [of "[''a.py'' \<mapsto> ''eval(1)'']" all_long parse_nested "[''a.py'']" _ "''a.py''"
            "''eval(1)''", OF run h2 h3, THEN conjunct1] run c
  show ?thesis by (simp add: parse_nested_def)
qed

theorem complexity_order_counterexample:
  "analyze_text all_long parse_nested ''src'' =
     [complexity_issue ''outer'', complexity_issue ''last'', complexity_issue ''inner'']
   \<and> map name_of (filter (oversized all_long ''src'') (preorder nested_tree)) =
       [''outer'', ''inner'', ''last'']
   \<and> analyze_text all_long parse_nested ''src'' \<noteq>
       map issue_of (filter (oversized all_long ''src'') (preorder nested_tree))"
proof -
  have a: "analyze_text all_long parse_nested ''src'' =
      [complexity_issue ''outer'', complexity_issue ''last'', complexity_issue ''inner'']"
    by (simp add: analyze_nested)
  have b: "filter (oversized all_long ''src'') (preorder nested_tree) =
      [Node (FunctionDef ''outer'') 1 0 [Node (FunctionDef ''inner'') 2 4 []],
       Node (FunctionDef ''inner'') 2 4 [], Node (FunctionDef ''last'') 130 0 []]"
    by (simp add: nested_tree_def oversized_def segment_lines_def all_long_def
        long_segment_lines)
  have c: "complexity_issue ''last'' \<noteq> complexity_issue ''inner''"
    by (simp add: complexity_issue_inj)
  show ?thesis unfolding a b using c by (simp add: issue_of_def)
qed

section \<open>The plan\<close>

text \<open>
  C4. For a report whose issues all have one of the two kinds of the analyzer, the plan
  has one action for each issue, in the order of the files of the report and, for each
  file, of its issues (\<^verbatim>\<open>fix_eval\<close> for a security issue, \<^verbatim>\<open>refactor_note\<close> for a
  complexity issue), followed by one \<^verbatim>\<open>investigate_test_failure\<close> without a file exactly
  when the tests did not succeed. Its length is the number of all issues, plus one when
  the tests did not succeed.
\<close>

theorem plan_follows_report:
  assumes "\<forall>(f, iss)\<in>set issues. \<forall>i\<in>set iss. known_kind i"
  shows "fix_planner_run issues tests =
           concat (map (\<lambda>(f, iss). map (remedy f) iss) issues) @
           (if success tests then []
            else [\<lparr>pfile = None, action = ''investigate_test_failure''\<rparr>])
         \<and> length (fix_planner_run issues tests) =
             sum_list (map (\<lambda>(f, iss). length iss) issues) + (if success tests then 0 else 1)"
proof -
  have p: "plan_files issues [] = concat (map (\<lambda>(f, iss). map (remedy f) iss) issues)"
    using plan_files_eq[OF assms, of "[]"] by simp
  have a: "fix_planner_run issues tests =
           concat (map (\<lambda>(f, iss). map (remedy f) iss) issues) @
           (if success tests then []
            else [\<lparr>pfile = None, action = ''investigate_test_failure''\<rparr>])"
    by (simp add: fix_planner_run_def p)
  have "map length (map (\<lambda>(f, iss). map (remedy f) iss) issues) =
        map (\<lambda>(f, iss). length iss) issues"
    by (induction issues) auto
  then have l: "length (concat (map (\<lambda>(f, iss). map (remedy f) iss) issues)) =
        sum_list (map (\<lambda>(f, iss). length iss) issues)"
    by (simp only: length_concat)
  show ?thesis unfolding a using l by simp
qed

theorem plan_follows_report_witness:
  "fix_planner_run
     [(''a.py'', [security_issue, complexity_issue ''f'']), (''b.py'', []),
      (''c.py'', [complexity_issue ''g''])]
     (CompileResult False [(''b.py'', ''invalid syntax'')]) =
   [\<lparr>pfile = Some ''a.py'', action = ''fix_eval''\<rparr>,
    \<lparr>pfile = Some ''a.py'', action = ''refactor_note''\<rparr>,
    \<lparr>pfile = Some ''c.py'', action = ''refactor_note''\<rparr>,
    \<lparr>pfile = None, action = ''investigate_test_failure''\<rparr>]
   \<and> length (fix_planner_run
     [(''a.py'', [security_issue, complexity_issue ''f'']), (''b.py'', []),
      (''c.py'', [complexity_issue ''g''])]
     (CompileResult False [(''b.py'', ''invalid syntax'')])) = 3 + 1"
proof -
  let ?issues = "[(''a.py'', [security_issue, complexity_issue ''f'']), (''b.py'', []),
      (''c.py'', [complexity_issue ''g''])]"
  have h: "\<forall>(f, iss)\<in>set ?issues. \<forall>i\<in>set iss. known_kind i"
    by (simp add: known_kind_def security_issue_def complexity_issue_def)
  from plan_follows_report[of ?issues "CompileResult False [(''b.py'', ''invalid syntax'')]", OF h]
  show ?thesis
    by (simp add: remedy_def security_issue_def complexity_issue_def)
qed

section \<open>The test runner\<close>

text \<open>
  C8. When the directory of tests exists and the external process raises an exception
  (a timeout, a failure to start), the runner does not raise: it returns the result of the
  first shape with \<open>success\<close> false, an empty output and the message of the exception
  as the error text. When the process ends, the result has the first shape and
  \<open>success\<close> says that the return code is zero. When the directory does not exist, the
  result has the second shape, with the compile errors of the files and \<open>success\<close>
  saying that there are none.
\<close>

theorem test_runner_result:
  "(tests_exists \<and> proc = Inl (Exception m) \<longrightarrow>
      test_runner_run tests_exists proc source_files compile_file =
        Inr (RunnerResult False [] m))
   \<and> (tests_exists \<and> proc = Inr (code, out, err) \<longrightarrow>
      test_runner_run tests_exists proc source_files compile_file =
        Inr (RunnerResult (code = 0) out err))
   \<and> (\<not> tests_exists \<and> (\<forall>f\<in>set source_files. \<forall>b. compile_file f \<noteq> Inl (BaseException b)) \<longrightarrow>
      test_runner_run tests_exists proc source_files compile_file =
        Inr (CompileResult (concat (map (compile_error compile_file) source_files) = [])
               (concat (map (compile_error compile_file) source_files))))"
proof (intro conjI impI)
  assume "tests_exists \<and> proc = Inl (Exception m)"
  then show "test_runner_run tests_exists proc source_files compile_file =
        Inr (RunnerResult False [] m)"
    by (simp add: test_runner_run_def run_cmd_def)
next
  assume "tests_exists \<and> proc = Inr (code, out, err)"
  then show "test_runner_run tests_exists proc source_files compile_file =
        Inr (RunnerResult (code = 0) out err)"
    by (simp add: test_runner_run_def run_cmd_def)
next
  assume a: "\<not> tests_exists \<and>
    (\<forall>f\<in>set source_files. \<forall>b. compile_file f \<noteq> Inl (BaseException b))"
  then have "compile_loop compile_file source_files [] =
     Inr ([] @ concat (map (compile_error compile_file) source_files))"
    using compile_loop_eq[of source_files compile_file "[]"] by blast
  then show "test_runner_run tests_exists proc source_files compile_file =
        Inr (CompileResult (concat (map (compile_error compile_file) source_files) = [])
               (concat (map (compile_error compile_file) source_files)))"
    using a by (simp add: test_runner_run_def)
qed

theorem test_runner_result_witness:
  "test_runner_run True (Inl (Exception ''timed out'')) [] compiles_all =
     Inr (RunnerResult False [] ''timed out'')
   \<and> test_runner_run True (Inr (1, ''1 failed'', [])) [] compiles_all =
     Inr (RunnerResult False ''1 failed'' [])
   \<and> test_runner_run False (Inr (0, [], [])) [''a.py'', ''b.py''] b_fails =
     Inr (CompileResult False [(''b.py'', ''invalid syntax'')])"
proof -
  have h: "\<forall>f\<in>set [''a.py'', ''b.py'']. \<forall>b. b_fails f \<noteq> Inl (BaseException b)"
    by (simp add: b_fails_def)
  have e: "concat (map (compile_error b_fails) [''a.py'', ''b.py'']) =
      [(''b.py'', ''invalid syntax'')]"
    by (simp add: compile_error_def b_fails_def)
  from test_runner_result[where tests_exists = True and proc = "Inl (Exception ''timed out'')"
         and m = "''timed out''" and source_files = "[]" and compile_file = compiles_all]
       test_runner_result[where tests_exists = True and proc = "Inr (1, ''1 failed'', [])"
         and code = 1 and out = "''1 failed''" and err = "[]" and source_files = "[]"
         and compile_file = compiles_all]
       test_runner_result[where tests_exists = False and proc = "Inr (0, [], [])"
         and source_files = "[''a.py'', ''b.py'']" and compile_file = b_fails]
       h e
  show ?thesis by (simp add: compile_error_def b_fails_def)
qed

section \<open>The dependency mapper\<close>

lemma sorted_demo: "sort (remdups [''os'', ''json'', ''os'']) = [''json'', ''os'']"
  by code_simp

lemma imports_of_import_tree:
  "collect_imports (walk import_tree) [] = [''os'', ''json'', ''os'']"
  by (simp add: walk_def import_tree_def top_level_def str_split_def)

lemma deps_entry_cases:
  "deps_entry fs parse f =
     (case fs f of
        None \<Rightarrow> []
      | Some text \<Rightarrow>
          (case parse text of
             Inl e \<Rightarrow> []
           | Inr tree \<Rightarrow> sort (remdups (collect_imports (walk tree) []))))"
  by (simp add: deps_entry_def file_imports_def read_file_def split: option.splits sum.splits)

text \<open>
  C7. The dependency mapper returns a map for every list of files: it never raises. In
  that map, a file that cannot be read or whose text does not parse has the empty list of
  modules, and every other file of the list has the sorted modules of its own tree,
  whatever happened to the files before it.
\<close>

theorem dependency_mapper_never_raises:
  "\<exists>deps. dependency_mapper_run fs parse files = Inr deps
     \<and> (\<forall>f\<in>set files.
          (fs f = None \<or> (\<exists>text e. fs f = Some text \<and> parse text = Inl e))
          \<longrightarrow> map_of deps f = Some [])
     \<and> (\<forall>f\<in>set files. \<forall>text tree.
          fs f = Some text \<and> parse text = Inr tree
          \<longrightarrow> map_of deps f = Some (sort (remdups (collect_imports (walk tree) []))))"
proof -
  let ?deps = "fold (\<lambda>f. dict_set f (deps_entry fs parse f)) files []"
  have r: "dependency_mapper_run fs parse files = Inr ?deps"
    by (simp add: dependency_mapper_run_def deps_loop_fold)
  have m: "map_of ?deps f = Some (deps_entry fs parse f)" if "f \<in> set files" for f
    using that by (simp add: map_of_fold_dict_set)
  have a: "\<forall>f\<in>set files.
          (fs f = None \<or> (\<exists>text e. fs f = Some text \<and> parse text = Inl e))
          \<longrightarrow> map_of ?deps f = Some []"
    using m by (auto simp: deps_entry_cases)
  have b: "\<forall>f\<in>set files. \<forall>text tree.
          fs f = Some text \<and> parse text = Inr tree
          \<longrightarrow> map_of ?deps f = Some (sort (remdups (collect_imports (walk tree) [])))"
    using m by (auto simp: deps_entry_cases)
  from r a b show ?thesis by blast
qed

theorem dependency_mapper_never_raises_witness:
  "dependency_mapper_run two_files parse_imports [''bad.py'', ''good.py'', ''gone.py''] =
     Inr [(''bad.py'', []), (''good.py'', [''json'', ''os'']), (''gone.py'', [])]
   \<and> two_files ''gone.py'' = None
   \<and> parse_imports ''def ('' = Inl (Exception ''invalid syntax'')"
proof -
  let ?files = "[''bad.py'', ''good.py'', ''gone.py'']"
  have p1: "parse_imports ''def ('' = Inl (Exception ''invalid syntax'')"
    by (simp add: parse_imports_def)
  have p2: "parse_imports ''imports'' = Inr import_tree" by (simp add: parse_imports_def)
  have f1: "two_files ''bad.py'' = Some ''def (''" and f2: "two_files ''good.py'' = Some ''imports''"
    and f3: "two_files ''gone.py'' = None"
    by (simp_all add: two_files_def)
  have e1: "deps_entry two_files parse_imports ''bad.py'' = []"
    by (simp add: deps_entry_cases f1 p1)
  have e2: "deps_entry two_files parse_imports ''good.py'' = [''json'', ''os'']"
    by (simp add: deps_entry_cases f2 p2 imports_of_import_tree sorted_demo)
  have e3: "deps_entry two_files parse_imports ''gone.py'' = []"
    by (simp add: deps_entry_cases f3)
  have run: "dependency_mapper_run two_files parse_imports ?files =
     Inr [(''bad.py'', []), (''good.py'', [''json'', ''os'']), (''gone.py'', [])]"
    by (simp add: dependency_mapper_run_def deps_loop_fold e1 e2 e3)
  from dependency_mapper_never_raises[of two_files parse_imports ?files] run f3 p1
  show ?thesis by simp
qed

section \<open>The keys of the two reports\<close>

text \<open>
  C10. For a list of files without duplicates, the keys of the dependency map are the
  files, in their order. The analyzer returns a report when every file can be read, and
  the keys of every report it returns are the files, in their order.
\<close>

theorem report_keys_are_the_files:
  assumes "distinct files"
  shows "(\<exists>deps. dependency_mapper_run fs parse files = Inr deps \<and> keys deps = files)
         \<and> ((\<forall>f\<in>set files. fs f \<noteq> None) \<longrightarrow>
              (\<exists>issues. static_analyzer_run fs seg parse files = Inr issues))
         \<and> (\<forall>issues. static_analyzer_run fs seg parse files = Inr issues \<longrightarrow>
              keys issues = files)"
proof (intro conjI allI impI)
  have e: "set files \<inter> set (keys ([] :: (string \<times> string list) list)) = {}"
    by (simp add: keys_def)
  have "keys (fold (\<lambda>f. dict_set f (deps_entry fs parse f)) files []) = files"
    using keys_fold_dict_set[where g = "deps_entry fs parse", OF assms e]
    by (simp add: keys_def)
  then show "\<exists>deps. dependency_mapper_run fs parse files = Inr deps \<and> keys deps = files"
    by (simp add: dependency_mapper_run_def deps_loop_fold)
next
  assume "\<forall>f\<in>set files. fs f \<noteq> None"
  then show "\<exists>issues. static_analyzer_run fs seg parse files = Inr issues"
    by (simp add: static_analyzer_run_def issues_loop_fold)
next
  fix issues
  assume r: "static_analyzer_run fs seg parse files = Inr issues"
  then have rd: "\<forall>f\<in>set files. fs f \<noteq> None"
    using issues_loop_returns unfolding static_analyzer_run_def by blast
  have i: "issues = fold (\<lambda>f. dict_set f (analyze_text seg parse (the (fs f)))) files []"
    using r issues_loop_fold[OF rd] unfolding static_analyzer_run_def by simp
  have e: "set files \<inter> set (keys ([] :: (string \<times> issue list) list)) = {}"
    by (simp add: keys_def)
  have "keys (fold (\<lambda>f. dict_set f (analyze_text seg parse (the (fs f)))) files []) =
      files"
    using keys_fold_dict_set[where g = "\<lambda>f. analyze_text seg parse (the (fs f))", OF assms e]
    by (simp add: keys_def)
  then show "keys issues = files" unfolding i .
qed

theorem report_keys_are_the_files_witness:
  "distinct [''bad.py'', ''good.py'']
   \<and> keys [(''bad.py'', [] :: string list), (''good.py'', [''json'', ''os''])] =
       [''bad.py'', ''good.py'']
   \<and> (\<exists>issues. static_analyzer_run two_files all_long parse_imports [''bad.py'', ''good.py'']
         = Inr issues \<and> keys issues = [''bad.py'', ''good.py''])"
proof -
  have d: "distinct [''bad.py'', ''good.py'']" by simp
  have rd: "\<forall>f\<in>set [''bad.py'', ''good.py'']. two_files f \<noteq> None"
    by (simp add: two_files_def)
  from report_keys_are_the_files[of "[''bad.py'', ''good.py'']" two_files parse_imports all_long,
         OF d] rd
  show ?thesis by (auto simp: keys_def)
qed

section \<open>The reports of the analyzer have the kinds of the planner\<close>

lemma set_dict_set:
  "(k', v') \<in> set (dict_set k v d) \<Longrightarrow> (k', v') \<in> set d \<or> v' = v"
  by (induction d) (auto split: if_splits)

lemma set_fold_dict_set:
  "(k, v) \<in> set (fold (\<lambda>f. dict_set f (g f)) files d) \<Longrightarrow>
   (k, v) \<in> set d \<or> (\<exists>f\<in>set files. v = g f)"
proof (induction files arbitrary: d)
  case Nil
  then show ?case by simp
next
  case (Cons a files)
  from Cons.prems have "(k, v) \<in> set (fold (\<lambda>f. dict_set f (g f)) files (dict_set a (g a) d))"
    by simp
  then have "(k, v) \<in> set (dict_set a (g a) d) \<or> (\<exists>f\<in>set files. v = g f)"
    by (rule Cons.IH)
  then show ?case using set_dict_set[of k v a "g a" d] by auto
qed

lemma analyzer_report_known_kind:
  assumes "static_analyzer_run fs seg parse files = Inr issues"
  shows "\<forall>(f, iss)\<in>set issues. \<forall>i\<in>set iss. known_kind i"
proof -
  have rd: "\<forall>f\<in>set files. fs f \<noteq> None"
    using assms issues_loop_returns unfolding static_analyzer_run_def by blast
  have i: "issues = fold (\<lambda>f. dict_set f (analyze_text seg parse (the (fs f)))) files []"
    using assms issues_loop_fold[OF rd] unfolding static_analyzer_run_def by simp
  show ?thesis
  proof (clarify)
    fix f iss i
    assume "(f, iss) \<in> set issues" and m: "i \<in> set iss"
    then have "\<exists>g\<in>set files. iss = analyze_text seg parse (the (fs g))"
      unfolding i using set_fold_dict_set[of f iss "\<lambda>f. analyze_text seg parse (the (fs f))" files "[]"]
      by simp
    then show "known_kind i" using m analyze_text_known_kind by blast
  qed
qed

end
